theory Spec2Isabelle
  imports Complex_Main "HOL-Library.Word"
begin

unbundle bit_operations_syntax

section \<open>JavaScript values used by App.tsx\<close>

text \<open>
  A JavaScript string is a sequence of UTF-16 code units. String literals of the source are
  written as Isabelle strings and embedded with \<open>js\<close>; every literal of App.tsx is
  ASCII, so one character is one code unit.
\<close>

type_synonym js_string = "16 word list"
type_synonym byte = "8 word"

definition js :: "string \<Rightarrow> js_string" where
  "js s = map (\<lambda>c. of_nat (of_char c)) s"

text \<open>Truthiness of \<open>string | null | undefined\<close>: only a non-empty string is truthy.\<close>

definition truthy :: "js_string option \<Rightarrow> bool" where
  "truthy v = (case v of None \<Rightarrow> False | Some s \<Rightarrow> s \<noteq> [])"

text \<open>
  \<open>String.prototype.trim\<close> removes WhiteSpace and LineTerminator code units
  (ECMAScript, sections 12.2 and 12.3) from both ends.
\<close>

definition is_js_whitespace :: "16 word \<Rightarrow> bool" where
  "is_js_whitespace c \<longleftrightarrow>
     c \<in> set [0x09, 0x0A, 0x0B, 0x0C, 0x0D, 0x20, 0xA0, 0x1680, 0x2028, 0x2029,
               0x202F, 0x205F, 0x3000, 0xFEFF]
     \<or> (0x2000 \<le> c \<and> c \<le> 0x200A)"

definition trim :: "js_string \<Rightarrow> js_string" where
  "trim s = rev (dropWhile is_js_whitespace (rev (dropWhile is_js_whitespace s)))"

text \<open>\<open>s.split(',')[1]\<close>: the text between the first and the second comma, undefined
  (None) when \<open>s\<close> has no comma.\<close>

definition split_comma_1 :: "js_string \<Rightarrow> js_string option" where
  "split_comma_1 s =
     (let rest = dropWhile (\<lambda>c. c \<noteq> 0x2C) s
      in if rest = [] then None else Some (takeWhile (\<lambda>c. c \<noteq> 0x2C) (tl rest)))"

datatype js_error = InvalidCharacterError | RangeError | NotSupportedError | TypeError

section \<open>The platform's base64 functions\<close>

text \<open>
  \<open>btoa\<close> and \<open>atob\<close> are browser built-ins. They are modelled after the HTML
  standard: \<open>btoa\<close> throws InvalidCharacterError on a code unit above U+00FF and
  otherwise applies the base64 encoding of RFC 4648, section 4, with padding; \<open>atob\<close> is
  the Infra standard's forgiving-base64 decode.
\<close>

definition fromCharCode :: "byte list \<Rightarrow> js_string" where
  "fromCharCode bs = map ucast bs"

definition b64_alphabet :: string where
  "b64_alphabet = ''ABCDEFGHIJKLMNOPQRSTUVWXYZabcdefghijklmnopqrstuvwxyz0123456789+/''"

definition b64_char :: "nat \<Rightarrow> 16 word" where
  "b64_char i = of_nat (of_char (b64_alphabet ! i))"

definition b64_index :: "16 word \<Rightarrow> nat option" where
  "b64_index c =
     (if 0x41 \<le> c \<and> c \<le> 0x5A then Some (unat c - 0x41)
      else if 0x61 \<le> c \<and> c \<le> 0x7A then Some (unat c - 0x61 + 26)
      else if 0x30 \<le> c \<and> c \<le> 0x39 then Some (unat c - 0x30 + 52)
      else if c = 0x2B then Some 62
      else if c = 0x2F then Some 63
      else None)"

definition pad_char :: "16 word" where
  "pad_char = 0x3D"

text \<open>The input bits, six at a time; the last group is filled with zero bits.\<close>

fun b64_sextets :: "byte list \<Rightarrow> nat list" where
  "b64_sextets (a # b # c # rest) =
     (let n = unat a * 65536 + unat b * 256 + unat c
      in [n div 262144, n div 4096 mod 64, n div 64 mod 64, n mod 64] @ b64_sextets rest)"
| "b64_sextets [a, b] =
     (let n = (unat a * 256 + unat b) * 4
      in [n div 4096, n div 64 mod 64, n mod 64])"
| "b64_sextets [a] =
     (let n = unat a * 16
      in [n div 64, n mod 64])"
| "b64_sextets [] = []"

definition b64_padding :: "byte list \<Rightarrow> js_string" where
  "b64_padding bs = replicate ((3 - length bs mod 3) mod 3) pad_char"

definition b64_encode :: "byte list \<Rightarrow> js_string" where
  "b64_encode bs = map b64_char (b64_sextets bs) @ b64_padding bs"

definition btoa :: "js_string \<Rightarrow> js_error + js_string" where
  "btoa data =
     (if list_ex (\<lambda>c. 0xFF < c) data then Inl InvalidCharacterError
      else Inr (b64_encode (map ucast data)))"

definition is_ascii_whitespace :: "16 word \<Rightarrow> bool" where
  "is_ascii_whitespace c \<longleftrightarrow> c = 0x09 \<or> c = 0x0A \<or> c = 0x0C \<or> c = 0x0D \<or> c = 0x20"

text \<open>Step 2 of forgiving-base64 decode: when the length is a multiple of four, one or two
  trailing \<open>=\<close> are removed.\<close>

definition strip_padding :: "js_string \<Rightarrow> js_string" where
  "strip_padding d =
     (if length d mod 4 = 0 \<and> d \<noteq> [] \<and> last d = pad_char
      then (let d1 = butlast d
            in if d1 \<noteq> [] \<and> last d1 = pad_char then butlast d1 else d1)
      else d)"

text \<open>Steps 8 and 9: 24 accumulated bits give three bytes; of 12 left-over bits the last
  four are discarded, of 18 the last two; 6 left-over bits give nothing.\<close>

fun b64_decode_sextets :: "nat list \<Rightarrow> byte list" where
  "b64_decode_sextets (s0 # s1 # s2 # s3 # rest) =
     (let n = s0 * 262144 + s1 * 4096 + s2 * 64 + s3
      in [of_nat (n div 65536), of_nat (n div 256 mod 256), of_nat (n mod 256)]
         @ b64_decode_sextets rest)"
| "b64_decode_sextets [s0, s1, s2] =
     (let n = (s0 * 4096 + s1 * 64 + s2) div 4
      in [of_nat (n div 256), of_nat (n mod 256)])"
| "b64_decode_sextets [s0, s1] = [of_nat ((s0 * 64 + s1) div 16)]"
| "b64_decode_sextets [s0] = []"
| "b64_decode_sextets [] = []"

definition forgiving_base64_decode :: "js_string \<Rightarrow> byte list option" where
  "forgiving_base64_decode data =
     (let d = strip_padding (filter (\<lambda>c. \<not> is_ascii_whitespace c) data)
      in if length d mod 4 = 1 then None
         else map_option b64_decode_sextets (those (map b64_index d)))"

definition atob :: "js_string \<Rightarrow> js_error + js_string" where
  "atob data =
     (case forgiving_base64_decode data of
        None \<Rightarrow> Inl InvalidCharacterError
      | Some bs \<Rightarrow> Inr (fromCharCode bs))"

text \<open>
  The two conversions of App.tsx between bytes and base64 text: on the capture path
  \<open>btoa(String.fromCharCode(...bytes))\<close>, on the playback path \<open>atob\<close> followed
  by the loop \<open>bytes[i] = binaryString.charCodeAt(i)\<close> into a Uint8Array, a store that
  keeps the low eight bits.
\<close>

definition encode_bytes :: "byte list \<Rightarrow> js_error + js_string" where
  "encode_bytes bytes = btoa (fromCharCode bytes)"

definition decode_bytes :: "js_string \<Rightarrow> js_error + byte list" where
  "decode_bytes chunk =
     (case atob chunk of
        Inl e \<Rightarrow> Inl e
      | Inr binaryString \<Rightarrow> Inr (map ucast binaryString))"

section \<open>Microphone capture: \<open>onaudioprocess\<close>\<close>










record realtime_input =
  mimeType :: string
  data :: js_string


text \<open>
  The audio format is fixed by three calls of startLiveSession, each with literal
  arguments: \<open>new AudioContext({sampleRate: 16000})\<close>,
  \<open>getUserMedia({audio: {channelCount: 1, sampleRate: 16000}})\<close> and, in \<open>onopen\<close>,
  \<open>createScriptProcessor(4096, 1, 1)\<close>. The model records each call with its arguments.
\<close>

record audio_context_options =
  ctx_sampleRate :: nat

record audio_constraints =
  channelCount :: nat
  mic_sampleRate :: nat

record script_processor_args =
  bufferSize :: nat
  numberOfInputChannels :: nat
  numberOfOutputChannels :: nat

datatype browser_call =
    NewAudioContext audio_context_options
  | GetUserMedia audio_constraints
  | CreateScriptProcessor script_processor_args

section \<open>Playback: decoding one chunk\<close>

record audio_buffer =
  numberOfChannels :: nat
  buf_sampleRate :: nat
  channelData :: "real list"

text \<open>\<open>DataView.getInt16(offset, true)\<close>: RangeError when the two bytes do not lie
  inside the view, otherwise the little-endian signed value.\<close>

definition getInt16 :: "byte list \<Rightarrow> nat \<Rightarrow> js_error + int" where
  "getInt16 bytes off =
     (if length bytes < off + 2 then Inl RangeError
      else Inr (sint (word_cat (bytes ! (off + 1)) (bytes ! off) :: 16 word)))"

text \<open>Sample \<open>j\<close> of a byte array: the little-endian int16 at offset \<open>2 * j\<close>,
  divided by 32768. The result of the loop below is stated with it.\<close>

definition sample_at :: "byte list \<Rightarrow> nat \<Rightarrow> real" where
  "sample_at bytes j =
     real_of_int (sint (word_cat (bytes ! (j * 2 + 1)) (bytes ! (j * 2)) :: 16 word)) / 32768"

text \<open>The loop \<open>for (i = 0; i < bytes.length / 2; i++)\<close>. The bound is a real quotient,
  so for an odd length the last round reads past the end and getInt16 throws. An int16
  divided by 32768 is exact in float32.\<close>

function pcm_loop :: "byte list \<Rightarrow> nat \<Rightarrow> real list \<Rightarrow> js_error + real list" where
  "pcm_loop bytes i float32 =
     (if 2 * i < length bytes
      then (case getInt16 bytes (i * 2) of
              Inl e \<Rightarrow> Inl e
            | Inr int16 \<Rightarrow>
                pcm_loop bytes (i + 1)
                  (if i < length float32 then float32[i := real_of_int int16 / 32768]
                   else float32))
      else Inr float32)"
  by pat_completeness auto
termination
  by (relation "measure (\<lambda>(bytes, i, float32). length bytes - 2 * i)") auto

text \<open>\<open>createBuffer(1, length, sampleRate)\<close> throws NotSupportedError for a length of
  zero (Web Audio API); 24000 Hz is inside the range every implementation supports.\<close>

definition createBuffer :: "nat \<Rightarrow> nat \<Rightarrow> nat \<Rightarrow> js_error + audio_buffer" where
  "createBuffer channels len rate =
     (if channels = 0 \<or> len = 0 \<or> rate = 0 then Inl NotSupportedError
      else Inr \<lparr>numberOfChannels = channels, buf_sampleRate = rate,
                channelData = replicate len 0\<rparr>)"

text \<open>The body of the \<open>try\<close> block of processAudioQueue up to the creation of the
  source: \<open>Inl\<close> is the exception the \<open>catch\<close> receives.\<close>

definition decodeChunk :: "js_string \<Rightarrow> js_error + audio_buffer" where
  "decodeChunk chunk =
     (case decode_bytes chunk of
        Inl e \<Rightarrow> Inl e
      | Inr bytes \<Rightarrow>
          (let sampleRate = 24000
           in case pcm_loop bytes 0 (replicate (length bytes div 2) 0) of
                Inl e \<Rightarrow> Inl e
              | Inr float32 \<Rightarrow>
                  (case createBuffer 1 (length float32) sampleRate of
                     Inl e \<Rightarrow> Inl e
                   | Inr audioBuffer \<Rightarrow> Inr (audioBuffer\<lparr>channelData := float32\<rparr>))))"

section \<open>The state of the App component\<close>

datatype role = User | Model

record message =
  role :: role
  msg_text :: js_string
  msg_image :: "js_string option"

datatype tab = Chat | Generate | Video

text \<open>What the component sends to the generative API; the log of these calls is part of
  the model's state, so that "no call" and "one call" can be stated.\<close>

datatype part = TextPart js_string | InlineData string "js_string option"

datatype api_call =
    GenerateContent string "part list"
  | GenerateVideos string "js_string option"

definition TEXT_CHAT :: string where "TEXT_CHAT = ''gemini-3-flash-preview''"
definition IMAGE_EDIT :: string where "IMAGE_EDIT = ''gemini-2.5-flash-image''"
definition VIDEO_GEN :: string where "VIDEO_GEN = ''veo-3.1-fast-generate-preview''"

text \<open>
  The \<open>useState\<close> cells and the \<open>useRef\<close> cells of App, under the source's names
  (\<open>image\<close> is \<open>image_url\<close>: the set image of HOL has the name). Browser objects
  are identified by numbers; a MediaStream is the list of its tracks. The last seven fields
  record what the component has done to the browser: the API calls issued, the calls that
  fix the audio format, the processors disconnected, the tracks stopped, the contexts closed, the buffers handed to a started
  source (in the order of \<open>source.start()\<close>) and the number of sources that were started
  and have not ended.
\<close>

record app_state =
  image_url :: "js_string option"
  generatedImage :: "js_string option"
  generatedVideo :: "js_string option"
  isGenerating :: bool
  chatInput :: js_string
  messages :: "message list"
  activeTab :: tab
  isLiveActive :: bool
  audioContextRef :: "nat option"
  mediaStreamRef :: "nat list option"
  processorRef :: "nat option"
  liveSessionRef :: "nat option"
  audioQueueRef :: "js_string list"
  isPlayingRef :: bool
  apiCalls :: "api_call list"
  browserCalls :: "browser_call list"
  disconnected :: "nat list"
  stoppedTracks :: "nat list"
  closedContexts :: "nat list"
  started :: "audio_buffer list"
  playing :: nat

definition welcome_message :: message where
  "welcome_message = \<lparr>role = Model,
     msg_text = js ''Welcome to DreamAbode. I'm your personal interior design assistant. Upload a photo of your room to get started, or just tell me what you're looking for!'',
     msg_image = None\<rparr>"

definition initial_state :: app_state where
  "initial_state =
     \<lparr>image_url = None, generatedImage = None, generatedVideo = None, isGenerating = False,
      chatInput = [], messages = [welcome_message], activeTab = Chat, isLiveActive = False,
      audioContextRef = None, mediaStreamRef = None, processorRef = None,
      liveSessionRef = None, audioQueueRef = [], isPlayingRef = False,
      apiCalls = [], browserCalls = [], disconnected = [], stoppedTracks = [], closedContexts = [],
      started = [], playing = 0\<rparr>"

definition addMessage :: "role \<Rightarrow> js_string \<Rightarrow> js_string option \<Rightarrow> app_state \<Rightarrow> app_state" where
  "addMessage r t img s =
     s\<lparr>messages := messages s @ [\<lparr>role = r, msg_text = t, msg_image = img\<rparr>]\<rparr>"

section \<open>Image upload\<close>

text \<open>
  A selected file is represented by what the FileReader holds in \<open>reader.result\<close> when
  \<open>onloadend\<close> fires: the data URL, or null (None) when reading failed.
\<close>

type_synonym selected_file = "js_string option"

definition upload_reply :: js_string where
  "upload_reply = js ''Great! I see your room. What would you like to change? I can suggest a new style, add specific furniture, or we can just chat about it.''"

definition onloadend :: "js_string option \<Rightarrow> app_state \<Rightarrow> app_state" where
  "onloadend result s =
     addMessage Model upload_reply None
       (addMessage User (js ''I uploaded a room image.'') result
          (s\<lparr>image_url := result, activeTab := Generate\<rparr>))"

text \<open>\<open>e.target.files?.[0]\<close>: undefined for a null or empty FileList.\<close>

definition handleImageUpload :: "selected_file list option \<Rightarrow> app_state \<Rightarrow> app_state" where
  "handleImageUpload files s =
     (case files of
        None \<Rightarrow> s
      | Some [] \<Rightarrow> s
      | Some (f # _) \<Rightarrow> onloadend f s)"

section \<open>Chat: handleSendMessage\<close>

text \<open>How an awaited promise settles; the value of \<open>generateContent\<close> that
  handleSendMessage reads is \<open>response.text\<close>, a string or undefined.\<close>

datatype 'a settled = Rejected | Resolved 'a

definition chat_fallback :: js_string where
  "chat_fallback = js ''I'm having trouble connecting right now. Please try again.''"

definition sendMessage_returns_early :: "app_state \<Rightarrow> bool" where
  "sendMessage_returns_early s \<longleftrightarrow> trim (chatInput s) = [] \<and> \<not> truthy (image_url s)"

text \<open>The synchronous part, up to the \<open>await\<close>: the setters, then the request.\<close>

definition chat_parts :: "app_state \<Rightarrow> part list" where
  "chat_parts s =
     (case image_url s of
        None \<Rightarrow> [TextPart (chatInput s)]
      | Some img \<Rightarrow>
          (if img \<noteq> []
           then [InlineData ''image/jpeg'' (split_comma_1 img), TextPart (chatInput s)]
           else [TextPart (chatInput s)]))"

definition sendMessage_begin :: "app_state \<Rightarrow> app_state" where
  "sendMessage_begin s =
     (addMessage User (chatInput s) None (s\<lparr>chatInput := []\<rparr>))
       \<lparr>isGenerating := True,
        apiCalls := apiCalls s @ [GenerateContent TEXT_CHAT (chat_parts s)]\<rparr>"

text \<open>The part after the \<open>await\<close>: \<open>try\<close> continues or \<open>catch\<close> runs, then
  \<open>finally\<close>.\<close>

definition sendMessage_settle :: "js_string option settled \<Rightarrow> app_state \<Rightarrow> app_state" where
  "sendMessage_settle r s =
     (case r of
        Rejected \<Rightarrow> addMessage Model chat_fallback None s
      | Resolved None \<Rightarrow> s
      | Resolved (Some t) \<Rightarrow> (if t \<noteq> [] then addMessage Model t None s else s))
       \<lparr>isGenerating := False\<rparr>"

definition handleSendMessage :: "js_string option settled \<Rightarrow> app_state \<Rightarrow> app_state" where
  "handleSendMessage r s =
     (if sendMessage_returns_early s then s
      else sendMessage_settle r (sendMessage_begin s))"

section \<open>Image and video generation\<close>

text \<open>
  Of the response of the image model the handler reads
  \<open>response.candidates?.[0]?.content?.parts\<close> (None when a link of the chain is
  undefined) and of each part \<open>part.inlineData\<close> and its \<open>data\<close>. An undefined
  \<open>data\<close> is printed as \<open>undefined\<close> by the template literal.
\<close>

datatype response_part = WithInlineData "js_string option" | WithoutInlineData

definition template_value :: "js_string option \<Rightarrow> js_string" where
  "template_value v = (case v of None \<Rightarrow> js ''undefined'' | Some t \<Rightarrow> t)"

definition generateImage_returns_early :: "app_state \<Rightarrow> bool" where
  "generateImage_returns_early s \<longleftrightarrow> \<not> truthy (image_url s)"

definition generateImage_begin :: "js_string \<Rightarrow> app_state \<Rightarrow> app_state" where
  "generateImage_begin prompt s =
     s\<lparr>isGenerating := True, generatedImage := None,
       apiCalls := apiCalls s @
         [GenerateContent IMAGE_EDIT
            [InlineData ''image/jpeg'' (case image_url s of None \<Rightarrow> None | Some img \<Rightarrow> split_comma_1 img),
             TextPart prompt]]\<rparr>"

fun generateImage_parts :: "js_string \<Rightarrow> response_part list \<Rightarrow> app_state \<Rightarrow> app_state" where
  "generateImage_parts prompt [] s = s"
| "generateImage_parts prompt (WithoutInlineData # ps) s = generateImage_parts prompt ps s"
| "generateImage_parts prompt (WithInlineData d # ps) s =
     (let imgUrl = js ''data:image/png;base64,'' @ template_value d
      in generateImage_parts prompt ps
           (addMessage Model
              (js ''Here is a generated idea based on '' @ [0x22] @ prompt @ [0x22] @ js '':'')
              (Some imgUrl)
              (s\<lparr>generatedImage := Some imgUrl\<rparr>)))"

definition generateImage_settle ::
  "js_string \<Rightarrow> response_part list option settled \<Rightarrow> app_state \<Rightarrow> app_state" where
  "generateImage_settle prompt r s =
     (case r of
        Rejected \<Rightarrow> addMessage Model (js ''Sorry, I encountered an error generating the image.'') None s
      | Resolved None \<Rightarrow>
          addMessage Model
            (js ''I couldn't generate an image this time. Please try a different prompt.'') None s
      | Resolved (Some ps) \<Rightarrow>
          (if list_ex (\<lambda>p. p \<noteq> WithoutInlineData) ps
           then generateImage_parts prompt ps s
           else addMessage Model
                  (js ''I couldn't generate an image this time. Please try a different prompt.'')
                  None (generateImage_parts prompt ps s)))
       \<lparr>isGenerating := False\<rparr>"

text \<open>
  handleGenerateVideo awaits \<open>generateVideos\<close>, polls until the operation is done and
  fetches the video. What the part after the last \<open>await\<close> sees: an exception of any
  of these steps, an operation without a video URI, or the object URL of the fetched blob.
  When the polling never ends, the handler never settles.
\<close>

datatype video_result = VideoThrew | VideoNoUri | VideoUrl js_string

definition generateVideo_returns_early :: "app_state \<Rightarrow> bool" where
  "generateVideo_returns_early s \<longleftrightarrow>
     (\<not> truthy (image_url s) \<and> \<not> truthy (generatedImage s))"

definition generateVideo_begin :: "app_state \<Rightarrow> app_state" where
  "generateVideo_begin s =
     (addMessage Model
        (js ''I'm generating a 3D walkthrough video for you. This may take a moment...'') None
        (s\<lparr>isGenerating := True, generatedVideo := None\<rparr>))
       \<lparr>apiCalls := apiCalls s @
          [GenerateVideos VIDEO_GEN
             (case (if truthy (generatedImage s) then generatedImage s else image_url s) of
                None \<Rightarrow> None | Some src \<Rightarrow> split_comma_1 src)]\<rparr>"

definition generateVideo_settle :: "video_result \<Rightarrow> app_state \<Rightarrow> app_state" where
  "generateVideo_settle r s =
     (case r of
        VideoThrew \<Rightarrow>
          addMessage Model (js ''Sorry, I encountered an error generating the video.'') None s
      | VideoNoUri \<Rightarrow>
          addMessage Model (js ''Video generation failed to return a URI.'') None s
      | VideoUrl url \<Rightarrow>
          addMessage Model (js ''Here is your 3D walkthrough video!'') None
            (s\<lparr>generatedVideo := Some url\<rparr>))
       \<lparr>isGenerating := False\<rparr>"

section \<open>The live voice session\<close>

text \<open>
  startLiveSession runs in pieces separated by its two \<open>await\<close>s: the synchronous
  start (the audio context is created and the microphone requested), the microphone stream
  arriving, the session arriving, and the \<open>catch\<close> that any failure of the three
  reaches.
\<close>

definition startLive_begin :: "nat \<Rightarrow> app_state \<Rightarrow> app_state" where
  "startLive_begin ctx s =
     s\<lparr>isLiveActive := True, audioContextRef := Some ctx,
       browserCalls := browserCalls s @
         [NewAudioContext \<lparr>ctx_sampleRate = 16000\<rparr>,
          GetUserMedia \<lparr>channelCount = 1, mic_sampleRate = 16000\<rparr>]\<rparr>"

definition userMedia_resolved :: "nat list \<Rightarrow> app_state \<Rightarrow> app_state" where
  "userMedia_resolved stream s = s\<lparr>mediaStreamRef := Some stream\<rparr>"

definition connect_resolved :: "nat \<Rightarrow> app_state \<Rightarrow> app_state" where
  "connect_resolved session s = s\<lparr>liveSessionRef := Some session\<rparr>"

definition startLive_failed :: "app_state \<Rightarrow> app_state" where
  "startLive_failed s = s\<lparr>isLiveActive := False\<rparr>"

text \<open>The \<open>onopen\<close> callback: with no audio context the call on null throws a
  TypeError before anything is stored.\<close>

definition onopen :: "nat \<Rightarrow> app_state \<Rightarrow> app_state" where
  "onopen processor s =
     (case audioContextRef s of
        None \<Rightarrow> s
      | Some ctx \<Rightarrow>
          s\<lparr>processorRef := Some processor,
            browserCalls := browserCalls s @
              [CreateScriptProcessor
                 \<lparr>bufferSize = 4096, numberOfInputChannels = 1,
                  numberOfOutputChannels = 1\<rparr>]\<rparr>)"

definition stopLiveSession :: "app_state \<Rightarrow> app_state" where
  "stopLiveSession s =
     (let s1 = s\<lparr>isLiveActive := False\<rparr>;
          s2 = (case processorRef s1 of
                  None \<Rightarrow> s1
                | Some p \<Rightarrow> s1\<lparr>disconnected := disconnected s1 @ [p], processorRef := None\<rparr>);
          s3 = (case mediaStreamRef s2 of
                  None \<Rightarrow> s2
                | Some tracks \<Rightarrow>
                    s2\<lparr>stoppedTracks := stoppedTracks s2 @ tracks, mediaStreamRef := None\<rparr>);
          s4 = (case audioContextRef s3 of
                  None \<Rightarrow> s3
                | Some ctx \<Rightarrow>
                    s3\<lparr>closedContexts := closedContexts s3 @ [ctx], audioContextRef := None\<rparr>)
      in s4\<lparr>liveSessionRef := None\<rparr>)"

section \<open>The playback queue\<close>

text \<open>
  processAudioQueue has no \<open>await\<close>, so a call runs to its end before any other
  handler. A chunk that is the empty string, a missing audio context and an exception of the
  decoding all lead to the immediate recursive call; otherwise a source is started and the
  next call is the one of its \<open>onended\<close>.
\<close>

function processAudioQueue :: "app_state \<Rightarrow> app_state" where
  "processAudioQueue s =
     (case audioQueueRef s of
        [] \<Rightarrow> s\<lparr>isPlayingRef := False\<rparr>
      | chunk # rest \<Rightarrow>
          (if chunk \<noteq> [] \<and> audioContextRef s \<noteq> None
           then (case decodeChunk chunk of
                   Inr audioBuffer \<Rightarrow>
                     s\<lparr>isPlayingRef := True, audioQueueRef := rest,
                       started := started s @ [audioBuffer], playing := playing s + 1\<rparr>
                 | Inl e \<Rightarrow> processAudioQueue (s\<lparr>isPlayingRef := True, audioQueueRef := rest\<rparr>))
           else processAudioQueue (s\<lparr>isPlayingRef := True, audioQueueRef := rest\<rparr>)))"
  by pat_completeness auto
termination
  by (relation "measure (\<lambda>s. length (audioQueueRef s))") auto

definition playAudioChunk :: "js_string \<Rightarrow> app_state \<Rightarrow> app_state" where
  "playAudioChunk base64Audio s =
     (let s1 = s\<lparr>audioQueueRef := audioQueueRef s @ [base64Audio]\<rparr>
      in if \<not> isPlayingRef s1 then processAudioQueue s1 else s1)"

text \<open>The \<open>onended\<close> handler of a source; it can fire only for a source that was
  started and has not ended.\<close>

definition source_onended :: "app_state \<Rightarrow> app_state" where
  "source_onended s =
     (if playing s = 0 then s else processAudioQueue (s\<lparr>playing := playing s - 1\<rparr>))"

text \<open>
  Of a LiveServerMessage the handler reads whether \<open>msg.serverContent?.interrupted\<close>
  is truthy and the value of
  \<open>msg.serverContent?.modelTurn?.parts?.[0]?.inlineData?.data\<close>.
\<close>

record live_message =
  interrupted :: bool
  audioData :: "js_string option"

definition onmessage :: "live_message \<Rightarrow> app_state \<Rightarrow> app_state" where
  "onmessage msg s =
     (if interrupted msg then s\<lparr>audioQueueRef := [], isPlayingRef := False\<rparr>
      else (case audioData msg of
              None \<Rightarrow> s
            | Some d \<Rightarrow> (if d \<noteq> [] then playAudioChunk d s else s)))"

section \<open>Runs of the component\<close>

text \<open>
  Every handler App registers, and every continuation of an asynchronous handler, is an
  event. A continuation may be taken at any time, which admits every interleaving the
  browser can produce. The handlers check their own guards; the conditions under which a
  control is rendered or enabled are not modelled, so the runs here include all real ones.
\<close>

datatype event =
    FileChosen "selected_file list option"
  | SendMessage
  | SendMessageSettled "js_string option settled"
  | GenerateImage js_string
  | GenerateImageSettled js_string "response_part list option settled"
  | GenerateClicked
  | GenerateVideo
  | GenerateVideoSettled video_result
  | ResetClicked
  | GenerateIdeasClicked
  | ChatTabClicked
  | EditTabClicked
  | ChatInputChanged js_string
  | StartLive nat
  | UserMediaResolved "nat list"
  | ConnectResolved nat
  | StartLiveFailed
  | LiveOpened nat
  | LiveMessage live_message
  | StopLive
  | SourceEnded

fun step :: "event \<Rightarrow> app_state \<Rightarrow> app_state" where
  "step (FileChosen files) s = handleImageUpload files s"
| "step SendMessage s = (if sendMessage_returns_early s then s else sendMessage_begin s)"
| "step (SendMessageSettled r) s = sendMessage_settle r s"
| "step (GenerateImage prompt) s =
     (if generateImage_returns_early s then s else generateImage_begin prompt s)"
| "step (GenerateImageSettled prompt r) s = generateImage_settle prompt r s"
| "step GenerateClicked s =
     (if generateImage_returns_early s then s else generateImage_begin (chatInput s) s)
       \<lparr>chatInput := []\<rparr>"
| "step GenerateVideo s = (if generateVideo_returns_early s then s else generateVideo_begin s)"
| "step (GenerateVideoSettled r) s = generateVideo_settle r s"
| "step ResetClicked s = s\<lparr>generatedImage := None, generatedVideo := None\<rparr>"
| "step GenerateIdeasClicked s = s\<lparr>activeTab := Generate\<rparr>"
| "step ChatTabClicked s = s\<lparr>activeTab := Chat\<rparr>"
| "step EditTabClicked s = s\<lparr>activeTab := Generate\<rparr>"
| "step (ChatInputChanged v) s = s\<lparr>chatInput := v\<rparr>"
| "step (StartLive ctx) s = startLive_begin ctx s"
| "step (UserMediaResolved stream) s = userMedia_resolved stream s"
| "step (ConnectResolved session) s = connect_resolved session s"
| "step StartLiveFailed s = startLive_failed s"
| "step (LiveOpened processor) s = onopen processor s"
| "step (LiveMessage msg) s = onmessage msg s"
| "step StopLive s = stopLiveSession s"
| "step SourceEnded s = source_onended s"

fun run :: "event list \<Rightarrow> app_state \<Rightarrow> app_state" where
  "run [] s = s"
| "run (e # es) s = run es (step e s)"

section \<open>Playback runs\<close>

text \<open>
  The events of playback: a server message that is not an interruption, and the end of a
  source. \<open>delivered\<close> lists the chunks such messages hand to playAudioChunk, in order of
  arrival; \<open>buffers\<close> lists the audio buffers of those chunks of a list that
  processAudioQueue gives to a source (the chunk is non-empty, there is an audio context and
  the decoding does not throw).
\<close>

fun playback_event :: "event \<Rightarrow> bool" where
  "playback_event (LiveMessage msg) = (\<not> interrupted msg)"
| "playback_event SourceEnded = True"
| "playback_event e = False"

fun delivered :: "event list \<Rightarrow> js_string list" where
  "delivered [] = []"
| "delivered (LiveMessage msg # es) =
     (if interrupted msg then delivered es
      else (case audioData msg of
              None \<Rightarrow> delivered es
            | Some d \<Rightarrow> (if d \<noteq> [] then d # delivered es else delivered es)))"
| "delivered (e # es) = delivered es"

fun buffers :: "nat option \<Rightarrow> js_string list \<Rightarrow> audio_buffer list" where
  "buffers ctx [] = []"
| "buffers ctx (chunk # rest) =
     (if chunk \<noteq> [] \<and> ctx \<noteq> None
      then (case decodeChunk chunk of
              Inr audioBuffer \<Rightarrow> audioBuffer # buffers ctx rest
            | Inl e \<Rightarrow> buffers ctx rest)
      else buffers ctx rest)"

text \<open>
  The states of sequential playback: either the player is marked as playing and exactly one
  source has not ended, or it is marked as idle, no source is playing and nothing waits in
  the queue.
\<close>

definition sequential :: "app_state \<Rightarrow> bool" where
  "sequential s \<longleftrightarrow>
     (isPlayingRef s \<and> playing s = 1) \<or>
     (\<not> isPlayingRef s \<and> playing s = 0 \<and> audioQueueRef s = [])"

section \<open>Verified properties\<close>

declare processAudioQueue.simps [simp del]
declare pcm_loop.simps [simp del]

subsection \<open>Image upload\<close>


subsection \<open>Chat\<close>

text \<open>
  C10. If \<open>chatInput.trim()\<close> is empty and image is null, handleSendMessage returns at
  once: whatever the API would have answered, the whole state, the log of API calls
  included, is the one before the call.
\<close>

theorem handleSendMessage_guard_noop:
  "trim (chatInput s) = [] \<Longrightarrow> image_url s = None \<Longrightarrow>
   handleSendMessage r s = s \<and> step SendMessage s = s"
  by (simp add: handleSendMessage_def sendMessage_returns_early_def truthy_def)

theorem handleSendMessage_guard_noop_witness:
  "trim (chatInput initial_state) = [] \<and> image_url initial_state = None \<and>
   handleSendMessage Rejected initial_state = initial_state \<and>
   step SendMessage initial_state = initial_state"
  using handleSendMessage_guard_noop [of initial_state Rejected]
  by (simp add: initial_state_def trim_def)



subsection \<open>The live session\<close>

text \<open>
  C5. After stopLiveSession, whatever the state before: isLiveActive is false; the four
  refs are null; the script processor that processorRef held has been disconnected; every
  track of the stream that mediaStreamRef held has been stopped; the audio context that
  audioContextRef held has been closed.
\<close>

theorem stopLiveSession_post:
  "isLiveActive (stopLiveSession s) = False \<and>
   processorRef (stopLiveSession s) = None \<and>
   mediaStreamRef (stopLiveSession s) = None \<and>
   audioContextRef (stopLiveSession s) = None \<and>
   liveSessionRef (stopLiveSession s) = None \<and>
   (\<forall>p. processorRef s = Some p \<longrightarrow> p \<in> set (disconnected (stopLiveSession s))) \<and>
   (\<forall>tracks. mediaStreamRef s = Some tracks \<longrightarrow>
      (\<forall>t \<in> set tracks. t \<in> set (stoppedTracks (stopLiveSession s)))) \<and>
   (\<forall>ctx. audioContextRef s = Some ctx \<longrightarrow> ctx \<in> set (closedContexts (stopLiveSession s)))"
  by (simp add: stopLiveSession_def Let_def split: option.split)

theorem stopLiveSession_post_witness:
  "processorRef (run [StartLive 3, UserMediaResolved [1, 2], ConnectResolved 4, LiveOpened 7]
      initial_state) = Some 7 \<and>
   mediaStreamRef (run [StartLive 3, UserMediaResolved [1, 2], ConnectResolved 4, LiveOpened 7]
      initial_state) = Some [1, 2] \<and>
   audioContextRef (run [StartLive 3, UserMediaResolved [1, 2], ConnectResolved 4, LiveOpened 7]
      initial_state) = Some 3 \<and>
   7 \<in> set (disconnected (stopLiveSession
      (run [StartLive 3, UserMediaResolved [1, 2], ConnectResolved 4, LiveOpened 7]
         initial_state))) \<and>
   1 \<in> set (stoppedTracks (stopLiveSession
      (run [StartLive 3, UserMediaResolved [1, 2], ConnectResolved 4, LiveOpened 7]
         initial_state))) \<and>
   2 \<in> set (stoppedTracks (stopLiveSession
      (run [StartLive 3, UserMediaResolved [1, 2], ConnectResolved 4, LiveOpened 7]
         initial_state))) \<and>
   3 \<in> set (closedContexts (stopLiveSession
      (run [StartLive 3, UserMediaResolved [1, 2], ConnectResolved 4, LiveOpened 7]
         initial_state))) \<and>
   isLiveActive (stopLiveSession
      (run [StartLive 3, UserMediaResolved [1, 2], ConnectResolved 4, LiveOpened 7]
         initial_state)) = False"
  using stopLiveSession_post
    [of "run [StartLive 3, UserMediaResolved [1, 2], ConnectResolved 4, LiveOpened 7]
           initial_state"]
  by (simp add: initial_state_def startLive_begin_def userMedia_resolved_def
        connect_resolved_def onopen_def)

text \<open>
  C8. A server message with \<open>serverContent.interrupted\<close> set empties the playback
  queue and sets isPlayingRef to false, and nothing else: the audio data of that message is
  neither queued nor given to a source.
\<close>

theorem onmessage_interrupted:
  "interrupted msg \<Longrightarrow>
     onmessage msg s = s\<lparr>audioQueueRef := [], isPlayingRef := False\<rparr> \<and>
     audioQueueRef (onmessage msg s) = [] \<and>
     isPlayingRef (onmessage msg s) = False \<and>
     started (onmessage msg s) = started s \<and>
     playing (onmessage msg s) = playing s"
  by (simp add: onmessage_def)

theorem onmessage_interrupted_witness:
  "interrupted \<lparr>interrupted = True, audioData = Some (js ''AAA='')\<rparr> \<and>
   audioQueueRef (onmessage \<lparr>interrupted = True, audioData = Some (js ''AAA='')\<rparr>
      (initial_state\<lparr>audioContextRef := Some 0, audioQueueRef := [js ''AAA='']\<rparr>)) = [] \<and>
   isPlayingRef (onmessage \<lparr>interrupted = True, audioData = Some (js ''AAA='')\<rparr>
      (initial_state\<lparr>audioContextRef := Some 0, audioQueueRef := [js ''AAA='']\<rparr>)) = False \<and>
   started (onmessage \<lparr>interrupted = True, audioData = Some (js ''AAA='')\<rparr>
      (initial_state\<lparr>audioContextRef := Some 0, audioQueueRef := [js ''AAA='']\<rparr>)) = []"
  using onmessage_interrupted
    [of "\<lparr>interrupted = True, audioData = Some (js ''AAA='')\<rparr>"
        "initial_state\<lparr>audioContextRef := Some 0, audioQueueRef := [js ''AAA='']\<rparr>"]
  by (simp add: initial_state_def)


subsection \<open>The active tab\<close>

lemma activeTab_processAudioQueue: "activeTab (processAudioQueue s) = activeTab s"
proof (induction s rule: processAudioQueue.induct)
  case (1 s)
  show ?case
  proof (cases "audioQueueRef s")
    case Nil
    then show ?thesis by (simp add: processAudioQueue.simps [of s])
  next
    case (Cons chunk rest)
    show ?thesis
    proof (cases "chunk \<noteq> [] \<and> audioContextRef s \<noteq> None")
      case True
      show ?thesis
      proof (cases "decodeChunk chunk")
        case (Inl e)
        with Cons True 1(1) [of chunk rest e] show ?thesis
          by (simp add: processAudioQueue.simps [of s])
      next
        case (Inr b)
        with Cons True show ?thesis by (simp add: processAudioQueue.simps [of s])
      qed
    next
      case False
      with Cons 1(2) [of chunk rest] show ?thesis
        by (auto simp add: processAudioQueue.simps [of s])
    qed
  qed
qed

lemma activeTab_generateImage_parts:
  "activeTab (generateImage_parts prompt ps s) = activeTab s"
  by (induction prompt ps s rule: generateImage_parts.induct) (simp_all add: addMessage_def Let_def)

lemma activeTab_step: "activeTab s \<noteq> Video \<Longrightarrow> activeTab (step e s) \<noteq> Video"
proof (cases e)
  case (FileChosen files)
  then show "activeTab s \<noteq> Video \<Longrightarrow> activeTab (step e s) \<noteq> Video"
    by (simp add: handleImageUpload_def onloadend_def addMessage_def split: option.split list.split)
next
  case (GenerateImageSettled prompt r)
  then show "activeTab s \<noteq> Video \<Longrightarrow> activeTab (step e s) \<noteq> Video"
    by (simp add: generateImage_settle_def addMessage_def activeTab_generateImage_parts
        split: settled.split option.split)
next
  case (LiveMessage msg)
  then show "activeTab s \<noteq> Video \<Longrightarrow> activeTab (step e s) \<noteq> Video"
    by (simp add: onmessage_def playAudioChunk_def Let_def activeTab_processAudioQueue
        split: option.split)
next
  case SourceEnded
  then show "activeTab s \<noteq> Video \<Longrightarrow> activeTab (step e s) \<noteq> Video"
    by (simp add: source_onended_def activeTab_processAudioQueue)
next
  case StopLive
  then show "activeTab s \<noteq> Video \<Longrightarrow> activeTab (step e s) \<noteq> Video"
    by (simp add: stopLiveSession_def Let_def split: option.split)
qed (simp_all add: sendMessage_begin_def sendMessage_settle_def addMessage_def
      generateImage_begin_def generateVideo_begin_def generateVideo_settle_def
      startLive_begin_def userMedia_resolved_def connect_resolved_def startLive_failed_def
      onopen_def split: settled.split option.split video_result.split)

lemma activeTab_run: "activeTab s \<noteq> Video \<Longrightarrow> activeTab (run evs s) \<noteq> Video"
  by (induction evs arbitrary: s) (simp_all add: activeTab_step)

text \<open>
  C9. In every state a run of the component reaches from its initial state, activeTab is
  \<open>chat\<close> or \<open>generate\<close>: the type has a third value, \<open>video\<close>, that no
  handler assigns.
\<close>

theorem activeTab_reachable:
  "activeTab (run evs initial_state) = Chat \<or> activeTab (run evs initial_state) = Generate"
proof -
  have "activeTab initial_state \<noteq> Video" by (simp add: initial_state_def)
  then have "activeTab (run evs initial_state) \<noteq> Video" by (rule activeTab_run)
  then show ?thesis by (cases "activeTab (run evs initial_state)") simp_all
qed

subsection \<open>Base64\<close>

lemma div4096: "(n::nat) div 4096 = n div 64 div 64"
  by (simp add: div_mult2_eq [symmetric])

lemma div262144: "(n::nat) div 262144 = n div 64 div 64 div 64"
  by (simp add: div_mult2_eq [symmetric])

lemma sextets_recombine4:
  fixes n :: nat
  shows "(n div 262144) * 262144 + (n div 4096 mod 64) * 4096 + (n div 64 mod 64) * 64 + n mod 64 = n"
proof -
  define q1 where "q1 = n div 64"
  define q2 where "q2 = q1 div 64"
  define q3 where "q3 = q2 div 64"
  have n: "n = q1 * 64 + n mod 64" unfolding q1_def by (rule div_mult_mod_eq [symmetric])
  have q1: "q1 = q2 * 64 + q1 mod 64" unfolding q2_def by (rule div_mult_mod_eq [symmetric])
  have q2: "q2 = q3 * 64 + q2 mod 64" unfolding q3_def by (rule div_mult_mod_eq [symmetric])
  have "q3 * 262144 + (q2 mod 64) * 4096 + (q1 mod 64) * 64 + n mod 64
        = ((q3 * 64 + q2 mod 64) * 64 + q1 mod 64) * 64 + n mod 64"
    by (simp add: algebra_simps)
  also have "\<dots> = n" using n q1 q2 by metis
  finally show ?thesis by (simp add: div4096 div262144 q1_def q2_def q3_def)
qed

lemma sextets_recombine3:
  fixes n :: nat
  shows "(n div 4096) * 4096 + (n div 64 mod 64) * 64 + n mod 64 = n"
proof -
  define q1 where "q1 = n div 64"
  define q2 where "q2 = q1 div 64"
  have n: "n = q1 * 64 + n mod 64" unfolding q1_def by (rule div_mult_mod_eq [symmetric])
  have q1: "q1 = q2 * 64 + q1 mod 64" unfolding q2_def by (rule div_mult_mod_eq [symmetric])
  have "q2 * 4096 + (q1 mod 64) * 64 + n mod 64
        = (q2 * 64 + q1 mod 64) * 64 + n mod 64"
    by (simp add: algebra_simps)
  also have "\<dots> = n" using n q1 by metis
  finally show ?thesis by (simp add: div4096 q1_def q2_def)
qed

lemma unat_byte: "unat (a :: byte) < 256"
proof -
  have "unat a < 2 ^ LENGTH(8)" by (rule unsigned_less)
  then show ?thesis by simp
qed

lemma bytes_of_triple:
  fixes A B C :: nat
  assumes "B < 256" "C < 256"
  shows "(A * 65536 + B * 256 + C) div 65536 = A"
    and "(A * 65536 + B * 256 + C) div 256 mod 256 = B"
    and "(A * 65536 + B * 256 + C) mod 256 = C"
proof -
  show "(A * 65536 + B * 256 + C) div 65536 = A" using assms by simp
  have "(A * 65536 + B * 256 + C) div 256 = ((A * 256 + B) * 256 + C) div 256"
    by (simp add: algebra_simps)
  also have "\<dots> = A * 256 + B" using assms by simp
  finally show "(A * 65536 + B * 256 + C) div 256 mod 256 = B" using assms by simp
  have "(A * 65536 + B * 256 + C) mod 256 = ((A * 256 + B) * 256 + C) mod 256"
    by (simp add: algebra_simps)
  also have "\<dots> = C mod 256" by (rule mod_mult_self3)
  finally show "(A * 65536 + B * 256 + C) mod 256 = C" using assms by simp
qed

lemma decode_sextets_inverse: "b64_decode_sextets (b64_sextets bs) = bs"
proof (induction bs rule: b64_sextets.induct)
  case (1 a b c rest)
  define n where "n = unat a * 65536 + unat b * 256 + unat c"
  have bc: "unat b < 256" "unat c < 256" by (rule unat_byte)+
  have "b64_decode_sextets (b64_sextets (a # b # c # rest)) =
          [of_nat (n div 65536), of_nat (n div 256 mod 256), of_nat (n mod 256)]
          @ b64_decode_sextets (b64_sextets rest)"
    using sextets_recombine4 [of n] by (simp add: Let_def n_def)
  then show ?case
    using 1 bytes_of_triple [OF bc, of "unat a"] by (simp add: n_def)
next
  case (2 a b)
  define n where "n = (unat a * 256 + unat b) * 4"
  have b: "unat b < 256" by (rule unat_byte)
  have "b64_decode_sextets (b64_sextets [a, b]) = [of_nat (n div 4 div 256), of_nat (n div 4 mod 256)]"
    using sextets_recombine3 [of n] by (simp add: Let_def n_def)
  then show ?case using b by (simp add: n_def)
next
  case (3 a)
  define n where "n = unat a * 16"
  have "(n div 64) * 64 + n mod 64 = n" by simp
  then have "b64_decode_sextets (b64_sextets [a]) = [of_nat (n div 16)]"
    by (simp add: Let_def n_def)
  then show ?case by (simp add: n_def)
next
  case 4
  show ?case by simp
qed

lemma b64_index_char_all: "list_all (\<lambda>i. b64_index (b64_char i) = Some i) [0..<64]"
  unfolding b64_char_def b64_alphabet_def b64_index_def
  by (simp add: upt_rec [of "numeral _"] upt_rec [of 0] upt_rec [of 1] upt_rec [of "Suc _"])

lemma b64_index_char: "i < 64 \<Longrightarrow> b64_index (b64_char i) = Some i"
  using b64_index_char_all by (simp add: list_all_iff)


lemma b64_char_not_pad: "i < 64 \<Longrightarrow> b64_char i \<noteq> pad_char"
  using b64_index_char [of i] by (auto simp: b64_index_def pad_char_def)

lemma b64_char_not_ws: "i < 64 \<Longrightarrow> \<not> is_ascii_whitespace (b64_char i)"
  using b64_index_char [of i] by (auto simp: b64_index_def is_ascii_whitespace_def)

lemma pad_not_ws: "\<not> is_ascii_whitespace pad_char"
  by (simp add: is_ascii_whitespace_def pad_char_def)

lemma sextets_lt: "s \<in> set (b64_sextets bs) \<Longrightarrow> s < 64"
proof (induction bs arbitrary: s rule: b64_sextets.induct)
  case (1 a b c rest)
  have "unat a < 256" "unat b < 256" "unat c < 256" by (rule unat_byte)+
  then have "unat a * 65536 + unat b * 256 + unat c < 64 * 262144" by simp
  then have "(unat a * 65536 + unat b * 256 + unat c) div 262144 < 64"
    by (simp only: less_mult_imp_div_less)
  with 1 show ?case by (auto simp: Let_def)
next
  case (2 a b)
  have "unat a < 256" "unat b < 256" by (rule unat_byte)+
  then have "(unat a * 256 + unat b) * 4 < 64 * 4096" by simp
  then have "(unat a * 256 + unat b) * 4 div 4096 < 64"
    by (simp only: less_mult_imp_div_less)
  with 2 show ?case by (auto simp: Let_def)
next
  case (3 a)
  have "unat a < 256" by (rule unat_byte)
  then have "unat a * 16 < 64 * 64" by simp
  then have "unat a * 16 div 64 < 64" by (simp only: less_mult_imp_div_less)
  with 3 show ?case by (auto simp: Let_def)
qed simp

lemma padding_step: "b64_padding (a # b # c # rest) = b64_padding rest"
proof -
  have "length (a # b # c # rest) = length rest + 3" by simp
  then show ?thesis unfolding b64_padding_def by (simp only: mod_add_self2)
qed

lemma encoded_shape:
  "(length (b64_sextets bs) + length (b64_padding bs)) mod 4 = 0 \<and>
   length (b64_sextets bs) mod 4 \<noteq> 1 \<and> length (b64_padding bs) \<le> 2"
proof (induction bs rule: b64_sextets.induct)
  case (1 a b c rest)
  define x where "x = length (b64_sextets rest)"
  define y where "y = length (b64_padding rest)"
  have l: "length (b64_sextets (a # b # c # rest)) = x + 4"
    by (simp add: Let_def x_def)
  have "x + 4 + y = (x + y) + 4" by simp
  then have "(x + 4 + y) mod 4 = (x + y) mod 4" by (simp only: mod_add_self2)
  moreover have "(x + 4) mod 4 = x mod 4" by simp
  ultimately show ?case
    using 1 unfolding padding_step l by (simp add: x_def y_def)
qed (simp_all add: b64_padding_def Let_def)

lemma those_index_char:
  "\<forall>s \<in> set ss. s < 64 \<Longrightarrow> those (map b64_index (map b64_char ss)) = Some ss"
  by (induction ss) (simp_all add: b64_index_char)

lemma strip_padding_encoded:
  assumes "k \<le> 2" "(length m + k) mod 4 = 0" "m \<noteq> [] \<Longrightarrow> last m \<noteq> pad_char"
  shows "strip_padding (m @ replicate k pad_char) = m"
proof -
  consider "k = 0" | "k = 1" | "k = 2" using assms(1) by linarith
  then show ?thesis
  proof cases
    case 1
    with assms show ?thesis by (auto simp: strip_padding_def)
  next
    case 2
    with assms(2) have "m \<noteq> []" by auto
    with 2 assms show ?thesis by (simp add: strip_padding_def butlast_append)
  next
    case 3
    have "replicate k pad_char = [pad_char, pad_char]" using 3 by (simp add: numeral_2_eq_2)
    then show ?thesis using 3 assms by (simp add: strip_padding_def butlast_append)
  qed
qed

lemma decode_encode: "forgiving_base64_decode (b64_encode bs) = Some bs"
proof -
  let ?m = "map b64_char (b64_sextets bs)"
  have lt: "\<forall>s \<in> set (b64_sextets bs). s < 64" using sextets_lt by blast
  have "\<forall>c \<in> set (b64_encode bs). \<not> is_ascii_whitespace c"
    using lt by (auto simp: b64_encode_def b64_padding_def b64_char_not_ws pad_not_ws)
  then have f: "filter (\<lambda>c. \<not> is_ascii_whitespace c) (b64_encode bs) = b64_encode bs"
    by simp
  have last: "?m \<noteq> [] \<Longrightarrow> last ?m \<noteq> pad_char"
  proof -
    assume ne: "?m \<noteq> []"
    then have "last ?m \<in> set ?m" by (rule last_in_set)
    then obtain x where "x \<in> set (b64_sextets bs)" "last ?m = b64_char x" by auto
    then show "last ?m \<noteq> pad_char" using lt b64_char_not_pad by simp
  qed
  have "b64_padding bs = replicate (length (b64_padding bs)) pad_char"
    by (simp add: b64_padding_def)
  then have "strip_padding (b64_encode bs) =
      strip_padding (?m @ replicate (length (b64_padding bs)) pad_char)"
    by (simp add: b64_encode_def)
  also have "\<dots> = ?m"
    by (rule strip_padding_encoded) (use last encoded_shape [of bs] in simp_all)
  finally have sp: "strip_padding (b64_encode bs) = ?m" .
  have "length ?m mod 4 \<noteq> 1" using encoded_shape [of bs] by simp
  then show ?thesis
    by (simp add: forgiving_base64_decode_def f sp Let_def those_index_char [OF lt]
          decode_sextets_inverse del: map_map)
qed

lemma ucast_byte_roundtrip: "map ucast (fromCharCode bs) = (bs :: byte list)"
  by (simp add: fromCharCode_def ucast_up_ucast_id is_up o_def)

lemma fromCharCode_latin1: "\<not> list_ex (\<lambda>c. 0xFF < c) (fromCharCode bs)"
proof -
  have "ucast b \<le> (0xFF :: 16 word)" for b :: byte
  proof -
    have "unat (ucast b :: 16 word) = unat b" by (simp add: unsigned_ucast_eq take_bit_nat_eq_self unat_byte [THEN less_trans])
    then show ?thesis using unat_byte [of b] by (simp add: word_le_nat_alt)
  qed
  then show ?thesis by (auto simp: fromCharCode_def list_ex_iff not_less)
qed

lemma encode_bytes_eq: "encode_bytes b = Inr (b64_encode b)"
  by (simp add: encode_bytes_def btoa_def fromCharCode_latin1 ucast_byte_roundtrip)

lemma decode_bytes_encoded: "decode_bytes (b64_encode b) = Inr b"
  by (simp add: decode_bytes_def atob_def decode_encode ucast_byte_roundtrip)

text \<open>
  C4. The encoding of the capture path never fails, and the decoding of the playback path
  applied to its result gives the bytes back: the two conversions are mutually inverse on
  every byte array.
\<close>

theorem base64_roundtrip:
  "encode_bytes b = Inr (b64_encode b) \<and> decode_bytes (b64_encode b) = Inr b"
  by (simp add: encode_bytes_eq decode_bytes_encoded)

subsection \<open>Microphone samples\<close>

















subsection \<open>Decoding a chunk for playback\<close>

lemma getInt16_inside:
  "i * 2 + 2 \<le> length bytes \<Longrightarrow>
   getInt16 bytes (i * 2) = Inr (sint (word_cat (bytes ! (i * 2 + 1)) (bytes ! (i * 2)) :: 16 word))"
  by (simp add: getInt16_def)

lemma pcm_loop_step:
  "i * 2 + 2 \<le> length bytes \<Longrightarrow> i < length float32 \<Longrightarrow>
   pcm_loop bytes i float32 = pcm_loop bytes (i + 1) (float32[i := sample_at bytes i])"
  by (simp add: pcm_loop.simps [of bytes i float32] getInt16_inside sample_at_def
        del: of_int_sint)

lemma pcm_loop_even:
  "even (length bytes) \<Longrightarrow> length float32 = length bytes div 2 \<Longrightarrow> i \<le> length bytes div 2 \<Longrightarrow>
   pcm_loop bytes i float32 =
     Inr (take i float32 @ map (sample_at bytes) [i..<length bytes div 2])"
proof (induction "length bytes div 2 - i" arbitrary: i float32)
  case 0
  then have n: "\<not> 2 * i < length bytes" and i: "i = length float32" by auto
  from n have "pcm_loop bytes i float32 = Inr float32"
    by (subst pcm_loop.simps) simp
  then show ?case using i 0 by simp
next
  case (Suc k)
  then have lt: "i < length bytes div 2" by simp
  then have r: "i * 2 + 2 \<le> length bytes" by auto
  let ?f = "float32[i := sample_at bytes i]"
  have "pcm_loop bytes i float32 = pcm_loop bytes (i + 1) ?f"
    using r lt Suc(2-) by (simp add: pcm_loop_step)
  also have "\<dots> = Inr (take (i + 1) ?f @ map (sample_at bytes) [i + 1..<length bytes div 2])"
    using Suc(1) [of "i + 1" ?f] Suc(2-) lt by simp
  also have "take (i + 1) ?f = take i float32 @ [sample_at bytes i]"
    using lt Suc(2-) by (simp add: take_Suc_conv_app_nth)
  finally show ?case using lt by (simp add: upt_conv_Cons)
qed

lemma pcm_loop_odd:
  "odd (length bytes) \<Longrightarrow> length float32 = length bytes div 2 \<Longrightarrow> i \<le> length bytes div 2 \<Longrightarrow>
   pcm_loop bytes i float32 = Inl RangeError"
proof (induction "length bytes div 2 - i" arbitrary: i float32)
  case 0
  then have i: "i = length bytes div 2" by simp
  from 0(2) have "length bytes = 2 * (length bytes div 2) + 1"
    by (metis odd_two_times_div_two_succ)
  with i have "2 * i < length bytes" "length bytes < i * 2 + 2" by simp_all
  then show ?case by (simp add: pcm_loop.simps [of bytes i float32] getInt16_def)
next
  case (Suc k)
  then have lt: "i < length bytes div 2" by simp
  then have r: "i * 2 + 2 \<le> length bytes" by auto
  let ?f = "float32[i := sample_at bytes i]"
  have "pcm_loop bytes i float32 = pcm_loop bytes (i + 1) ?f"
    using r lt Suc(2-) by (simp add: pcm_loop_step)
  also have "\<dots> = Inl RangeError"
    using Suc(1) [of "i + 1" ?f] Suc(2-) lt by simp
  finally show ?case .
qed

lemma sample_at_range: "- 1 \<le> sample_at bytes j \<and> sample_at bytes j < 1"
proof -
  let ?w = "word_cat (bytes ! (j * 2 + 1)) (bytes ! (j * 2)) :: 16 word"
  have "- (2 ^ (LENGTH(16) - 1)) \<le> sint ?w" by (rule sint_ge)
  then have "- 32768 \<le> sint ?w" by simp
  then have lo: "- 32768 \<le> real_of_int (sint ?w)" by linarith
  have "sint ?w < 2 ^ (LENGTH(16) - 1)" by (rule sint_lt)
  then have "sint ?w < 32768" by simp
  then have hi: "real_of_int (sint ?w) < 32768" by linarith
  from lo hi show ?thesis unfolding sample_at_def by (simp add: field_simps del: of_int_sint)
qed

lemma decodeChunk_cases:
  "decodeChunk chunk =
     (case decode_bytes chunk of
        Inl e \<Rightarrow> Inl e
      | Inr bytes \<Rightarrow>
          if odd (length bytes) then Inl RangeError
          else if bytes = [] then Inl NotSupportedError
          else Inr \<lparr>numberOfChannels = 1, buf_sampleRate = 24000,
                    channelData = map (sample_at bytes) [0..<length bytes div 2]\<rparr>)"
proof (cases "decode_bytes chunk")
  case (Inl e)
  then show ?thesis by (simp add: decodeChunk_def)
next
  case (Inr bytes)
  show ?thesis
  proof (cases "odd (length bytes)")
    case True
    then show ?thesis using Inr by (simp add: decodeChunk_def pcm_loop_odd)
  next
    case False
    then have "pcm_loop bytes 0 (replicate (length bytes div 2) 0) =
        Inr (map (sample_at bytes) [0..<length bytes div 2])"
      using pcm_loop_even [of bytes "replicate (length bytes div 2) 0" 0] by simp
    moreover have "length bytes div 2 = 0 \<longleftrightarrow> bytes = []" using False by (cases bytes) auto
    ultimately show ?thesis using Inr False
      by (simp add: decodeChunk_def createBuffer_def)
  qed
qed

text \<open>
  C2. Whenever processAudioQueue builds a playback buffer from a chunk, the chunk's base64
  text decodes to bytes, sample \<open>i\<close> of the buffer is \<open>getInt16(2 * i, true)\<close> of these
  bytes divided by 32768 and lies in \<open>[-1, 1)\<close>, and the buffer has one channel, half
  as many samples as there are bytes, and the sample rate 24000.
\<close>

theorem decodeChunk_buffer:
  "decodeChunk chunk = Inr buf \<Longrightarrow>
   \<exists>bytes. decode_bytes chunk = Inr bytes \<and>
     numberOfChannels buf = 1 \<and> buf_sampleRate buf = 24000 \<and>
     length (channelData buf) = length bytes div 2 \<and>
     (\<forall>i < length (channelData buf).
        \<exists>int16. getInt16 bytes (i * 2) = Inr int16 \<and>
          channelData buf ! i = real_of_int int16 / 32768 \<and>
          - 1 \<le> channelData buf ! i \<and> channelData buf ! i < 1)"
proof -
  assume a: "decodeChunk chunk = Inr buf"
  then obtain bytes where b: "decode_bytes chunk = Inr bytes"
    by (cases "decode_bytes chunk") (simp_all add: decodeChunk_def)
  with a have ev: "even (length bytes)" and
    buf: "buf = \<lparr>numberOfChannels = 1, buf_sampleRate = 24000,
                 channelData = map (sample_at bytes) [0..<length bytes div 2]\<rparr>"
    by (auto simp: decodeChunk_cases split: if_splits)
  have "\<exists>int16. getInt16 bytes (i * 2) = Inr int16 \<and>
          channelData buf ! i = real_of_int int16 / 32768 \<and>
          - 1 \<le> channelData buf ! i \<and> channelData buf ! i < 1"
    if "i < length (channelData buf)" for i
  proof -
    from that have "i < length bytes div 2" by (simp add: buf)
    then have r: "i * 2 + 2 \<le> length bytes" by auto
    have "channelData buf ! i = sample_at bytes i" using \<open>i < length bytes div 2\<close> by (simp add: buf)
    then show ?thesis
      using getInt16_inside [OF r] sample_at_range [of bytes i]
      by (simp add: sample_at_def del: of_int_sint)
  qed
  then show ?thesis using b by (auto simp: buf)
qed

theorem decodeChunk_buffer_witness:
  "decodeChunk (js ''AID/fw=='') =
     Inr \<lparr>numberOfChannels = 1, buf_sampleRate = 24000, channelData = [- 1, 32767 / 32768]\<rparr>
   \<and> (\<exists>bytes. decode_bytes (js ''AID/fw=='') = Inr bytes \<and>
        length [- 1, 32767 / 32768 :: real] = length bytes div 2 \<and>
        (\<forall>i < length [- 1, 32767 / 32768 :: real].
           \<exists>int16. getInt16 bytes (i * 2) = Inr int16 \<and>
             [- 1, 32767 / 32768] ! i = real_of_int int16 / 32768 \<and>
             - 1 \<le> [- 1, 32767 / 32768 :: real] ! i \<and> [- 1, 32767 / 32768 :: real] ! i < 1))"
proof -
  have e: "decodeChunk (js ''AID/fw=='') =
     Inr \<lparr>numberOfChannels = 1, buf_sampleRate = 24000, channelData = [- 1, 32767 / 32768]\<rparr>"
    by (simp add: decodeChunk_def decode_bytes_def atob_def forgiving_base64_decode_def js_def
        is_ascii_whitespace_def strip_padding_def pad_char_def b64_index_def fromCharCode_def
        pcm_loop.simps getInt16_def createBuffer_def Let_def word_cat_eq del: of_int_sint)
  from decodeChunk_buffer [OF e] e show ?thesis by simp
qed

subsection \<open>The playback queue\<close>

lemma paq_Nil:
  "audioQueueRef s = [] \<Longrightarrow> processAudioQueue s = s\<lparr>isPlayingRef := False\<rparr>"
  by (simp add: processAudioQueue.simps [of s])

lemma paq_play:
  "audioQueueRef s = chunk # rest \<Longrightarrow> chunk \<noteq> [] \<Longrightarrow> audioContextRef s \<noteq> None \<Longrightarrow>
   decodeChunk chunk = Inr b \<Longrightarrow>
   processAudioQueue s =
     s\<lparr>isPlayingRef := True, audioQueueRef := rest, started := started s @ [b],
       playing := playing s + 1\<rparr>"
  by (simp add: processAudioQueue.simps [of s])

lemma paq_throw:
  "audioQueueRef s = chunk # rest \<Longrightarrow> decodeChunk chunk = Inl e \<Longrightarrow>
   processAudioQueue s = processAudioQueue (s\<lparr>isPlayingRef := True, audioQueueRef := rest\<rparr>)"
  by (simp add: processAudioQueue.simps [of s])

lemma paq_skip:
  "audioQueueRef s = chunk # rest \<Longrightarrow> chunk = [] \<or> audioContextRef s = None \<Longrightarrow>
   processAudioQueue s = processAudioQueue (s\<lparr>isPlayingRef := True, audioQueueRef := rest\<rparr>)"
  by (auto simp add: processAudioQueue.simps [of s])

lemma paq_effect:
  "audioContextRef (processAudioQueue s) = audioContextRef s \<and>
   started (processAudioQueue s) @ buffers (audioContextRef s) (audioQueueRef (processAudioQueue s))
     = started s @ buffers (audioContextRef s) (audioQueueRef s) \<and>
   ((isPlayingRef (processAudioQueue s) \<and> playing (processAudioQueue s) = playing s + 1) \<or>
    (\<not> isPlayingRef (processAudioQueue s) \<and> playing (processAudioQueue s) = playing s \<and>
     audioQueueRef (processAudioQueue s) = []))"
proof (induction "audioQueueRef s" arbitrary: s)
  case Nil
  then show ?case by (simp add: paq_Nil)
next
  case (Cons chunk rest)
  let ?s1 = "s\<lparr>isPlayingRef := True, audioQueueRef := rest\<rparr>"
  have q: "audioQueueRef s = chunk # rest" using Cons(2) by simp
  have ih: "audioContextRef (processAudioQueue ?s1) = audioContextRef s \<and>
   started (processAudioQueue ?s1) @ buffers (audioContextRef s) (audioQueueRef (processAudioQueue ?s1))
     = started s @ buffers (audioContextRef s) rest \<and>
   ((isPlayingRef (processAudioQueue ?s1) \<and> playing (processAudioQueue ?s1) = playing s + 1) \<or>
    (\<not> isPlayingRef (processAudioQueue ?s1) \<and> playing (processAudioQueue ?s1) = playing s \<and>
     audioQueueRef (processAudioQueue ?s1) = []))"
    using Cons(1) [of ?s1] by simp
  show ?case
  proof (cases "chunk = [] \<or> audioContextRef s = None")
    case True
    then have "buffers (audioContextRef s) (chunk # rest) = buffers (audioContextRef s) rest"
      by auto
    then show ?thesis using ih paq_skip [OF q True] q by simp
  next
    case False
    show ?thesis
    proof (cases "decodeChunk chunk")
      case (Inl e)
      then have "buffers (audioContextRef s) (chunk # rest) = buffers (audioContextRef s) rest"
        by simp
      then show ?thesis using ih paq_throw [OF q Inl] q by simp
    next
      case (Inr b)
      then have "buffers (audioContextRef s) (chunk # rest) = b # buffers (audioContextRef s) rest"
        using False by simp
      moreover have "processAudioQueue s =
          s\<lparr>isPlayingRef := True, audioQueueRef := rest, started := started s @ [b],
            playing := playing s + 1\<rparr>"
        using False by (intro paq_play [OF q _ _ Inr]) simp_all
      ultimately show ?thesis using q by simp
    qed
  qed
qed

lemma buffers_append: "buffers ctx (xs @ ys) = buffers ctx xs @ buffers ctx ys"
  by (induction xs) (simp_all split: sum.split)

lemma playAudioChunk_effect:
  assumes "sequential s"
  shows "sequential (playAudioChunk c s)"
    and "audioContextRef (playAudioChunk c s) = audioContextRef s"
    and "started (playAudioChunk c s) @
           buffers (audioContextRef s) (audioQueueRef (playAudioChunk c s))
         = started s @ buffers (audioContextRef s) (audioQueueRef s @ [c])"
proof -
  let ?s1 = "s\<lparr>audioQueueRef := audioQueueRef s @ [c]\<rparr>"
  show "sequential (playAudioChunk c s)"
    using assms paq_effect [of ?s1]
    by (auto simp: playAudioChunk_def Let_def sequential_def)
  show "audioContextRef (playAudioChunk c s) = audioContextRef s"
    using paq_effect [of ?s1] by (simp add: playAudioChunk_def Let_def)
  show "started (playAudioChunk c s) @
           buffers (audioContextRef s) (audioQueueRef (playAudioChunk c s))
         = started s @ buffers (audioContextRef s) (audioQueueRef s @ [c])"
    using paq_effect [of ?s1] by (simp add: playAudioChunk_def Let_def)
qed

lemma source_onended_effect:
  assumes "sequential s"
  shows "sequential (source_onended s)"
    and "audioContextRef (source_onended s) = audioContextRef s"
    and "started (source_onended s) @
           buffers (audioContextRef s) (audioQueueRef (source_onended s))
         = started s @ buffers (audioContextRef s) (audioQueueRef s)"
proof -
  let ?s1 = "s\<lparr>playing := playing s - 1\<rparr>"
  show "sequential (source_onended s)"
    using assms paq_effect [of ?s1]
    by (auto simp: source_onended_def sequential_def)
  show "audioContextRef (source_onended s) = audioContextRef s"
    using paq_effect [of ?s1] by (simp add: source_onended_def)
  show "started (source_onended s) @
           buffers (audioContextRef s) (audioQueueRef (source_onended s))
         = started s @ buffers (audioContextRef s) (audioQueueRef s)"
    using paq_effect [of ?s1] by (simp add: source_onended_def)
qed

lemma playback_run:
  "list_all playback_event evs \<Longrightarrow> sequential s \<Longrightarrow>
   sequential (run evs s) \<and>
   audioContextRef (run evs s) = audioContextRef s \<and>
   started (run evs s) @ buffers (audioContextRef s) (audioQueueRef (run evs s))
     = started s @ buffers (audioContextRef s) (audioQueueRef s @ delivered evs)"
proof (induction evs arbitrary: s)
  case Nil
  then show ?case by simp
next
  case (Cons e es)
  from Cons(2) have pe: "playback_event e" and pes: "list_all playback_event es" by simp_all
  have st: "sequential (step e s) \<and> audioContextRef (step e s) = audioContextRef s \<and>
     started (step e s) @ buffers (audioContextRef s) (audioQueueRef (step e s))
       = started s @ buffers (audioContextRef s) (audioQueueRef s @ delivered [e])"
  proof (cases e)
    case (LiveMessage msg)
    with pe have ni: "\<not> interrupted msg" by simp
    show ?thesis
    proof (cases "audioData msg")
      case None
      with LiveMessage ni Cons(3) show ?thesis by (simp add: onmessage_def)
    next
      case (Some d)
      with LiveMessage ni Cons(3) playAudioChunk_effect [OF Cons(3), of d] show ?thesis
        by (simp add: onmessage_def)
    qed
  next
    case SourceEnded
    with source_onended_effect [OF Cons(3)] show ?thesis by simp
  qed (use pe in simp_all)
  have d: "delivered (e # es) = delivered [e] @ delivered es"
    by (cases e) (simp_all split: option.split)
  from Cons(1) [OF pes, of "step e s"] st show ?case
    by (simp add: d buffers_append)
qed

text \<open>
  The other handlers do not touch the queue, the flag or the sources, so in every run of
  the whole component that has no interruption at most one source is playing.
\<close>

lemma generateImage_parts_playback:
  "isPlayingRef (generateImage_parts prompt ps s) = isPlayingRef s \<and>
   playing (generateImage_parts prompt ps s) = playing s \<and>
   audioQueueRef (generateImage_parts prompt ps s) = audioQueueRef s"
  by (induction prompt ps s rule: generateImage_parts.induct) (simp_all add: addMessage_def Let_def)

lemma sequential_step:
  assumes "sequential s" and "\<forall>msg. e = LiveMessage msg \<longrightarrow> \<not> interrupted msg"
  shows "sequential (step e s)"
proof (cases e)
  case (LiveMessage msg)
  with assms playAudioChunk_effect(1) [OF assms(1)] show ?thesis
    by (simp add: onmessage_def split: option.split)
next
  case SourceEnded
  with source_onended_effect(1) [OF assms(1)] show ?thesis by simp
next
  case (FileChosen files)
  with assms(1) show ?thesis
    by (simp add: sequential_def handleImageUpload_def onloadend_def addMessage_def
        split: option.split list.split)
next
  case (GenerateImageSettled prompt r)
  with assms(1) show ?thesis
    by (simp add: sequential_def generateImage_settle_def addMessage_def
        generateImage_parts_playback split: settled.split option.split)
next
  case StopLive
  with assms(1) show ?thesis
    by (simp add: sequential_def stopLiveSession_def Let_def split: option.split)
qed (use assms(1) in \<open>simp_all add: sequential_def sendMessage_begin_def sendMessage_settle_def
      addMessage_def generateImage_begin_def generateVideo_begin_def generateVideo_settle_def
      startLive_begin_def userMedia_resolved_def connect_resolved_def startLive_failed_def
      onopen_def split: settled.split option.split video_result.split\<close>)

lemma sequential_run:
  "sequential s \<Longrightarrow> \<forall>e \<in> set evs. \<forall>msg. e = LiveMessage msg \<longrightarrow> \<not> interrupted msg \<Longrightarrow>
   sequential (run evs s)"
  by (induction evs arbitrary: s) (simp_all add: sequential_step)

lemma one_source_without_interruption:
  "\<forall>e \<in> set evs. \<forall>msg. e = LiveMessage msg \<longrightarrow> \<not> interrupted msg \<Longrightarrow>
   playing (run evs initial_state) \<le> 1"
proof -
  assume a: "\<forall>e \<in> set evs. \<forall>msg. e = LiveMessage msg \<longrightarrow> \<not> interrupted msg"
  have "sequential initial_state" by (simp add: sequential_def initial_state_def)
  from sequential_run [OF this a] show ?thesis by (auto simp: sequential_def)
qed

lemma decode_silence:
  "decodeChunk (js ''AAA='') =
     Inr \<lparr>numberOfChannels = 1, buf_sampleRate = 24000, channelData = [0]\<rparr>"
  by (simp add: decodeChunk_def decode_bytes_def atob_def forgiving_base64_decode_def js_def
      is_ascii_whitespace_def strip_padding_def pad_char_def b64_index_def fromCharCode_def
      pcm_loop.simps getInt16_def createBuffer_def Let_def word_cat_eq del: of_int_sint)

lemma js_silence_nonempty: "js ''AAA='' \<noteq> []"
  by (simp add: js_def)

text \<open>
  C1, as the code has it. Start from a state in which the player is idle, and let only
  chunk deliveries (server messages that are not interruptions) and ends of sources happen.
  Then at every moment at most one source is playing, the player is marked as playing
  exactly when one is, and an idle player has an empty queue; the buffers started so far,
  followed by those of the chunks still waiting, are the buffers of the delivered chunks in
  their order of arrival, so each chunk that can be played is started once, in FIFO order,
  and a chunk is started only when no source is playing. processAudioQueue called with an
  empty queue sets isPlayingRef to false.
\<close>

theorem playback_sequential:
  "list_all playback_event evs \<Longrightarrow>
   \<not> isPlayingRef s \<Longrightarrow> playing s = 0 \<Longrightarrow> audioQueueRef s = [] \<Longrightarrow>
   playing (run evs s) \<le> 1 \<and>
   (isPlayingRef (run evs s) \<longleftrightarrow> playing (run evs s) = 1) \<and>
   (\<not> isPlayingRef (run evs s) \<longrightarrow> audioQueueRef (run evs s) = []) \<and>
   started (run evs s) @ buffers (audioContextRef s) (audioQueueRef (run evs s))
     = started s @ buffers (audioContextRef s) (delivered evs) \<and>
   (audioQueueRef t = [] \<longrightarrow> \<not> isPlayingRef (processAudioQueue t))"
proof -
  assume evs: "list_all playback_event evs"
    and idle: "\<not> isPlayingRef s" "playing s = 0" "audioQueueRef s = []"
  from idle have "sequential s" by (simp add: sequential_def)
  from playback_run [OF evs this] idle show ?thesis
    by (auto simp: sequential_def paq_Nil)
qed

theorem playback_sequential_witness:
  "list_all playback_event
     [LiveMessage \<lparr>interrupted = False, audioData = Some (js ''AAA='')\<rparr>,
      LiveMessage \<lparr>interrupted = False, audioData = Some (js ''AAA='')\<rparr>,
      SourceEnded] \<and>
   \<not> isPlayingRef (step (StartLive 0) initial_state) \<and>
   playing (step (StartLive 0) initial_state) = 0 \<and>
   audioQueueRef (step (StartLive 0) initial_state) = [] \<and>
   playing (run
     [LiveMessage \<lparr>interrupted = False, audioData = Some (js ''AAA='')\<rparr>,
      LiveMessage \<lparr>interrupted = False, audioData = Some (js ''AAA='')\<rparr>,
      SourceEnded] (step (StartLive 0) initial_state)) \<le> 1 \<and>
   started (run
     [LiveMessage \<lparr>interrupted = False, audioData = Some (js ''AAA='')\<rparr>,
      LiveMessage \<lparr>interrupted = False, audioData = Some (js ''AAA='')\<rparr>,
      SourceEnded] (step (StartLive 0) initial_state)) =
     [\<lparr>numberOfChannels = 1, buf_sampleRate = 24000, channelData = [0]\<rparr>,
      \<lparr>numberOfChannels = 1, buf_sampleRate = 24000, channelData = [0]\<rparr>]"
  using playback_sequential
    [of "[LiveMessage \<lparr>interrupted = False, audioData = Some (js ''AAA='')\<rparr>,
          LiveMessage \<lparr>interrupted = False, audioData = Some (js ''AAA='')\<rparr>,
          SourceEnded]" "step (StartLive 0) initial_state"]
  by (simp add: startLive_begin_def initial_state_def onmessage_def playAudioChunk_def
        source_onended_def js_silence_nonempty decode_silence processAudioQueue.simps Let_def)

text \<open>
  C1 as stated fails once an interruption arrives while a source is playing: the handler
  marks the player idle although the source has not ended, and the next chunk is started
  on top of it. After a chunk, an interruption and a second chunk, two sources play.
\<close>

theorem overlap_after_interruption:
  "playing (run
     [LiveMessage \<lparr>interrupted = False, audioData = Some (js ''AAA='')\<rparr>,
      LiveMessage \<lparr>interrupted = True, audioData = None\<rparr>,
      LiveMessage \<lparr>interrupted = False, audioData = Some (js ''AAA='')\<rparr>]
     (step (StartLive 0) initial_state)) = 2 \<and>
   \<not> playing (run
     [LiveMessage \<lparr>interrupted = False, audioData = Some (js ''AAA='')\<rparr>,
      LiveMessage \<lparr>interrupted = True, audioData = None\<rparr>,
      LiveMessage \<lparr>interrupted = False, audioData = Some (js ''AAA='')\<rparr>]
     (step (StartLive 0) initial_state)) \<le> 1"
  by (simp add: startLive_begin_def initial_state_def onmessage_def playAudioChunk_def
        js_silence_nonempty decode_silence processAudioQueue.simps Let_def)

end
